theory Spec2Isabelle
  imports Main "HOL-Library.Multiset"
begin

section \<open>Data model of search.py\<close>

text \<open>
  Exceptions of the module are values. \<open>AssertionError\<close> carries the message of the
  failed \<^verbatim>\<open>assert\<close>; \<open>IndexError\<close> is what \<^verbatim>\<open>path[-1]\<close> raises on an empty tuple.
\<close>

datatype py_error = AssertionError string | NotImplementedError | IndexError

text \<open>
  \<^verbatim>\<open>class Arc(namedtuple('Arc', 'tail, head, label, cost'))\<close>. The tail of an arc is
  a node or Python's \<^verbatim>\<open>None\<close> (the seed arcs of \<^verbatim>\<open>generic_search\<close>), costs are integers.
  A path is a tuple of arcs.
\<close>

datatype 'n arc = Arc (tail: "'n option") (head: 'n) (label: string) (cost: int)

type_synonym 'n path = "'n arc list"

text \<open>
  The abstract class \<^verbatim>\<open>Graph\<close>: an object offering the three abstract methods. The
  sequences they return are finite lists here.
\<close>

record 'n graph =
  starting_nodes :: "'n list"
  is_goal :: "'n \<Rightarrow> bool"
  outgoing_arcs :: "'n \<Rightarrow> 'n arc list"

text \<open>\<^verbatim>\<open>Graph.estimated_cost_to_goal\<close>: the body is \<^verbatim>\<open>raise NotImplementedError\<close>.\<close>

definition estimated_cost_to_goal :: "'n graph \<Rightarrow> 'n \<Rightarrow> py_error + int" where
  "estimated_cost_to_goal self node = Inl NotImplementedError"

section \<open>ExplicitGraph\<close>

text \<open>An edge is a tuple \<^verbatim>\<open>(tail, head)\<close> or \<^verbatim>\<open>(tail, head, cost)\<close>.\<close>

datatype 'n edge = Edge2 'n 'n | Edge3 'n 'n int

fun edge_tail :: "'n edge \<Rightarrow> 'n" where
  "edge_tail (Edge2 t h) = t"
| "edge_tail (Edge3 t h c) = t"

fun edge_head :: "'n edge \<Rightarrow> 'n" where
  "edge_head (Edge2 t h) = h"
| "edge_head (Edge3 t h c) = h"

record 'n explicit_graph =
  nodes :: "'n set"
  edge_list :: "'n edge list"
  starting_list :: "'n list"
  goal_nodes :: "'n set"
  estimates :: "('n \<rightharpoonup> int) option"

text \<open>
  \<^verbatim>\<open>ExplicitGraph.__init__\<close>: three assertions in the order of the source, then the
  fields are stored.
\<close>

definition ExplicitGraph_init ::
  "'n set \<Rightarrow> 'n edge list \<Rightarrow> 'n list \<Rightarrow> 'n set \<Rightarrow> ('n \<rightharpoonup> int) option
    \<Rightarrow> py_error + 'n explicit_graph" where
  "ExplicitGraph_init nodes' edge_list' starting_list' goal_nodes' estimates' =
     (if \<not> list_all (\<lambda>e. edge_tail e \<in> nodes' \<and> edge_head e \<in> nodes') edge_list'
      then Inl (AssertionError ''edges must link two existing nodes!'')
      else if \<not> list_all (\<lambda>node. node \<in> nodes') starting_list'
      then Inl (AssertionError ''The starting_states must be in nodes.'')
      else if \<not> (\<forall>node \<in> goal_nodes'. node \<in> nodes')
      then Inl (AssertionError ''The goal states must be in nodes.'')
      else Inr \<lparr>nodes = nodes', edge_list = edge_list', starting_list = starting_list',
                goal_nodes = goal_nodes', estimates = estimates'\<rparr>)"

definition ExplicitGraph_starting_nodes :: "'n explicit_graph \<Rightarrow> 'n list" where
  "ExplicitGraph_starting_nodes self = starting_list self"

definition ExplicitGraph_is_goal :: "'n explicit_graph \<Rightarrow> 'n \<Rightarrow> bool" where
  "ExplicitGraph_is_goal self node \<longleftrightarrow> node \<in> goal_nodes self"

text \<open>
  \<^verbatim>\<open>ExplicitGraph.outgoing_arcs\<close>: the loop over \<^verbatim>\<open>self.edge_list\<close>, yielding an arc
  for each edge whose tail is the node. \<open>str\<close> is Python's \<^verbatim>\<open>str\<close> on nodes.
\<close>

fun outgoing_arcs_loop :: "('n \<Rightarrow> string) \<Rightarrow> 'n edge list \<Rightarrow> 'n \<Rightarrow> 'n arc list" where
  "outgoing_arcs_loop str [] node = []"
| "outgoing_arcs_loop str (edge # rest) node =
     (let tail = edge_tail edge; head = edge_head edge in
      if tail = node then
        (let cost = (case edge of Edge3 _ _ c \<Rightarrow> c | Edge2 _ _ \<Rightarrow> 1) in
         Arc (Some tail) head (str tail @ ''->'' @ str head) cost
           # outgoing_arcs_loop str rest node)
      else outgoing_arcs_loop str rest node)"

definition ExplicitGraph_outgoing_arcs ::
  "('n \<Rightarrow> string) \<Rightarrow> 'n explicit_graph \<Rightarrow> 'n \<Rightarrow> 'n arc list" where
  "ExplicitGraph_outgoing_arcs str self node = outgoing_arcs_loop str (edge_list self) node"

text \<open>An \<^verbatim>\<open>ExplicitGraph\<close> used through the interface of \<^verbatim>\<open>Graph\<close>.\<close>

definition as_graph :: "('n \<Rightarrow> string) \<Rightarrow> 'n explicit_graph \<Rightarrow> 'n graph" where
  "as_graph str self =
     \<lparr>starting_nodes = ExplicitGraph_starting_nodes self,
      is_goal = ExplicitGraph_is_goal self,
      outgoing_arcs = ExplicitGraph_outgoing_arcs str self\<rparr>"

section \<open>Frontier\<close>

text \<open>
  The abstract class \<^verbatim>\<open>Frontier\<close>: an object with a state of type \<open>'f\<close> and its two
  abstract methods. \<open>add\<close> stores a path and gives the new state; \<open>next_path\<close> is one
  step of the generator returned by \<^verbatim>\<open>__iter__\<close>: it selects and removes a path, or
  is exhausted (\<open>None\<close>, Python's \<^verbatim>\<open>StopIteration\<close>).
\<close>

record ('f, 'n) frontier =
  add :: "'n path \<Rightarrow> 'f \<Rightarrow> 'f"
  next_path :: "'f \<Rightarrow> ('n path \<times> 'f) option"

section \<open>generic_search\<close>

text \<open>
  The calls \<^verbatim>\<open>generic_search\<close> makes on its two collaborators are recorded, in order,
  in a log that is threaded through the run beside the state of the frontier.
\<close>

datatype 'n event = FrontierAdd "'n path" | IsGoal 'n | OutgoingArcs 'n

datatype 'n outcome = Returned "'n path option" | Raised py_error | OutOfFuel

definition seed_path :: "'n \<Rightarrow> 'n path" where
  "seed_path node = [Arc None node ''no action'' 0]"

definition frontier_add ::
  "('f, 'n) frontier \<Rightarrow> 'n path \<Rightarrow> 'f \<times> 'n event list \<Rightarrow> 'f \<times> 'n event list" where
  "frontier_add F path st = (add F path (fst st), snd st @ [FrontierAdd path])"

text \<open>Lines 23-24: one seed path per starting node.\<close>

fun seed_frontier ::
  "('f, 'n) frontier \<Rightarrow> 'n list \<Rightarrow> 'f \<times> 'n event list \<Rightarrow> 'f \<times> 'n event list" where
  "seed_frontier F [] st = st"
| "seed_frontier F (node # rest) st = seed_frontier F rest (frontier_add F (seed_path node) st)"

text \<open>Lines 34-35: every extension of the path by an outgoing arc is added.\<close>

fun expand ::
  "('f, 'n) frontier \<Rightarrow> 'n path \<Rightarrow> 'n arc list \<Rightarrow> 'f \<times> 'n event list \<Rightarrow> 'f \<times> 'n event list" where
  "expand F path [] st = st"
| "expand F path (arc # rest) st = expand F path rest (frontier_add F (path @ [arc]) st)"

text \<open>
  Lines 26-37: the loop \<^verbatim>\<open>for path in frontier\<close>. It may run forever, so the number of
  iterations is bounded by a fuel argument; \<open>OutOfFuel\<close> says the loop was still
  running. The result carries the final state of the frontier and the log.
\<close>

fun search_loop ::
  "nat \<Rightarrow> 'n graph \<Rightarrow> ('f, 'n) frontier \<Rightarrow> 'f \<times> 'n event list
    \<Rightarrow> 'n outcome \<times> 'f \<times> 'n event list" where
  "search_loop 0 graph F st = (OutOfFuel, st)"
| "search_loop (Suc k) graph F st =
     (case next_path F (fst st) of
        None \<Rightarrow> (Returned None, st)
      | Some (path, f') \<Rightarrow>
          (if path = [] then (Raised IndexError, f', snd st)
           else
             let node_to_expand = head (last path) in
             if is_goal graph node_to_expand
             then (Returned (Some path), f', snd st @ [IsGoal node_to_expand])
             else search_loop k graph F
                    (expand F path (outgoing_arcs graph node_to_expand)
                       (f', snd st @ [IsGoal node_to_expand, OutgoingArcs node_to_expand]))))"

definition generic_search ::
  "nat \<Rightarrow> 'n graph \<Rightarrow> ('f, 'n) frontier \<Rightarrow> 'f \<Rightarrow> 'n outcome \<times> 'f \<times> 'n event list" where
  "generic_search fuel graph F f0 =
     search_loop fuel graph F (seed_frontier F (starting_nodes graph) (f0, []))"

section \<open>print_actions\<close>

text \<open>
  The output is the list of the calls of \<^verbatim>\<open>print\<close>, each with its arguments. Python's
  \<^verbatim>\<open>sum\<close> adds from the left, starting at 0. \<^verbatim>\<open>if path\<close> is false for \<^verbatim>\<open>None\<close> and for
  the empty tuple.
\<close>

datatype pyval = Str string | Num int

definition py_sum :: "int list \<Rightarrow> int" where
  "py_sum xs = foldl (+) 0 xs"

definition print_actions :: "'n path option \<Rightarrow> pyval list list" where
  "print_actions path =
     (case path of
        None \<Rightarrow> [[Str ''There is no solution!'']]
      | Some p \<Rightarrow>
          if p = [] then [[Str ''There is no solution!'']]
          else [[Str ''Actions:'']]
             @ map (\<lambda>arc. [Str (''  '' @ label arc @ '','')]) (butlast (tl p))
             @ [[Str (''  '' @ label (last p) @ ''.'')]]
             @ [[Str ''Total Cost:'', Num (py_sum (map cost p))]])"

section \<open>Notions the properties are stated with\<close>

text \<open>The total cost of a path, as \<^verbatim>\<open>print_actions\<close> computes it.\<close>

definition total_cost :: "'n path \<Rightarrow> int" where
  "total_cost p = py_sum (map cost p)"

text \<open>Adjacent arcs of a path are linked: the later arc leaves the node the earlier enters.\<close>

fun chained :: "'n path \<Rightarrow> bool" where
  "chained (a # b # rest) \<longleftrightarrow> tail b = Some (head a) \<and> chained (b # rest)"
| "chained [a] \<longleftrightarrow> True"
| "chained [] \<longleftrightarrow> True"

definition well_formed :: "'n path \<Rightarrow> bool" where
  "well_formed p \<longleftrightarrow>
     (case p of [] \<Rightarrow> False
      | a # _ \<Rightarrow> tail a = None \<and> label a = ''no action'' \<and> cost a = 0) \<and> chained p"

text \<open>
  The contract of a frontier, stated with the collection of paths it holds (a
  multiset, given by \<open>contents\<close>): \<open>add\<close> puts at most the given path into the
  collection, and a path that is produced was in the collection and is removed from it.
  A frontier may drop paths.
\<close>

definition frontier_contract :: "('f, 'n) frontier \<Rightarrow> ('f \<Rightarrow> 'n path multiset) \<Rightarrow> bool" where
  "frontier_contract F contents \<longleftrightarrow>
     (\<forall>path f. contents (add F path f) \<subseteq># add_mset path (contents f)) \<and>
     (\<forall>f path f'. next_path F f = Some (path, f') \<longrightarrow>
        path \<in># contents f \<and> contents f' \<subseteq># contents f - {#path#})"

text \<open>A frontier that keeps every path it is given until it produces it.\<close>

definition admits_all :: "('f, 'n) frontier \<Rightarrow> ('f \<Rightarrow> 'n path multiset) \<Rightarrow> bool" where
  "admits_all F contents \<longleftrightarrow> (\<forall>path f. contents (add F path f) = add_mset path (contents f))"

text \<open>Production ends only when the frontier holds no path.\<close>

definition exhausted_only_when_empty ::
  "('f, 'n) frontier \<Rightarrow> ('f \<Rightarrow> 'n path multiset) \<Rightarrow> bool" where
  "exhausted_only_when_empty F contents \<longleftrightarrow> (\<forall>f. next_path F f = None \<longrightarrow> contents f = {#})"

text \<open>The path produced is one of least total cost among those held.\<close>

definition cheapest_first :: "('f, 'n) frontier \<Rightarrow> ('f \<Rightarrow> 'n path multiset) \<Rightarrow> bool" where
  "cheapest_first F contents \<longleftrightarrow>
     (\<forall>f path f'. next_path F f = Some (path, f') \<longrightarrow>
        (\<forall>q. q \<in># contents f \<longrightarrow> total_cost path \<le> total_cost q))"

text \<open>
  The arcs of a graph as a relation: \<open>(m, n)\<close> when an arc of \<open>outgoing_arcs n\<close> enters
  \<open>m\<close>. The nodes reachable from \<open>s\<close> are those \<open>n\<close> with \<open>(n, s)\<close> in its reflexive
  transitive closure.
\<close>

definition arcs_rel :: "'n graph \<Rightarrow> ('n \<times> 'n) set" where
  "arcs_rel g = {(head a, n) | a n. a \<in> set (outgoing_arcs g n)}"

definition reachable :: "'n graph \<Rightarrow> 'n \<Rightarrow> bool" where
  "reachable g n \<longleftrightarrow> (\<exists>s. s \<in> set (starting_nodes g) \<and> (n, s) \<in> (arcs_rel g)\<^sup>*)"

section \<open>Two frontiers, as concrete inputs\<close>

text \<open>A first-in first-out frontier: a queue of paths.\<close>

definition fifo_frontier :: "('n path list, 'n) frontier" where
  "fifo_frontier =
     \<lparr>add = (\<lambda>path f. f @ [path]),
      next_path = (\<lambda>f. case f of [] \<Rightarrow> None | path # rest \<Rightarrow> Some (path, rest))\<rparr>"

text \<open>A lowest-cost-first frontier: the path produced is the first of least total cost.\<close>

fun pick_cheapest :: "'n path \<Rightarrow> 'n path list \<Rightarrow> 'n path" where
  "pick_cheapest best [] = best"
| "pick_cheapest best (q # rest) =
     pick_cheapest (if total_cost q < total_cost best then q else best) rest"

definition lowest_cost_frontier :: "('n path list, 'n) frontier" where
  "lowest_cost_frontier =
     \<lparr>add = (\<lambda>path f. f @ [path]),
      next_path = (\<lambda>f. case f of [] \<Rightarrow> None
                   | q # rest \<Rightarrow> (let path = pick_cheapest q rest in Some (path, remove1 path f)))\<rparr>"

text \<open>The graphs of the two concrete scenarios; the nodes are strings.\<close>

definition graph_ABC :: "string explicit_graph" where
  "graph_ABC =
     \<lparr>nodes = {''A'', ''B'', ''C''},
      edge_list = [Edge3 ''A'' ''B'' 1, Edge3 ''B'' ''C'' 1, Edge3 ''A'' ''C'' 5],
      starting_list = [''A''], goal_nodes = {''C''}, estimates = None\<rparr>"

definition graph_A :: "string explicit_graph" where
  "graph_A =
     \<lparr>nodes = {''A''}, edge_list = [], starting_list = [''A''], goal_nodes = {''A''},
      estimates = None\<rparr>"

text \<open>What the output of \<^verbatim>\<open>print_actions\<close> lists as actions, and the total it shows.\<close>

fun printed_label :: "pyval list \<Rightarrow> string" where
  "printed_label [Str s] = butlast (drop 2 s)"
| "printed_label _ = []"

definition printed_actions :: "pyval list list \<Rightarrow> string list" where
  "printed_actions out = map printed_label (butlast (tl out))"

fun printed_total :: "pyval list list \<Rightarrow> int option" where
  "printed_total [] = None"
| "printed_total out = (case last out of [Str s, Num n] \<Rightarrow> Some n | _ \<Rightarrow> None)"

section \<open>The default heuristic\<close>

text \<open>
  C10. For every node, the default \<^verbatim>\<open>estimated_cost_to_goal\<close> raises
  \<^verbatim>\<open>NotImplementedError\<close>; it returns no number, so in particular not the estimate zero.
\<close>

theorem estimated_cost_to_goal_not_supported:
  "estimated_cost_to_goal g node = Inl NotImplementedError \<and>
   (\<forall>x. estimated_cost_to_goal g node \<noteq> Inr x)"
  by (simp add: estimated_cost_to_goal_def)

section \<open>Construction and arcs of an ExplicitGraph\<close>

text \<open>
  C5. The construction of an \<^verbatim>\<open>ExplicitGraph\<close> fails with an \<^verbatim>\<open>AssertionError\<close> whenever
  the tail or the head of some edge, some starting node or some goal node is not in the
  node set; otherwise it succeeds and gives the graph with the five fields as passed.
  The error is the result of the construction, so no graph exists that a search could
  run on.
\<close>

theorem ExplicitGraph_init_validates:
  "(if (\<exists>e \<in> set E. edge_tail e \<notin> N \<or> edge_head e \<notin> N) \<or> (\<exists>s \<in> set S. s \<notin> N)
        \<or> (\<exists>t \<in> G. t \<notin> N)
    then \<exists>msg. ExplicitGraph_init N E S G est = Inl (AssertionError msg)
    else ExplicitGraph_init N E S G est =
           Inr \<lparr>nodes = N, edge_list = E, starting_list = S, goal_nodes = G, estimates = est\<rparr>)"
  unfolding ExplicitGraph_init_def list_all_iff by auto

theorem ExplicitGraph_init_validates_witness:
  "(\<exists>msg. ExplicitGraph_init {''A'', ''B'', ''C''}
       [Edge3 ''A'' ''B'' 1, Edge3 ''B'' ''C'' 1, Edge3 ''A'' ''C'' 5] [''A''] {''Z''} None
     = Inl (AssertionError msg)) \<and>
   ExplicitGraph_init {''A'', ''B'', ''C''}
       [Edge3 ''A'' ''B'' 1, Edge3 ''B'' ''C'' 1, Edge3 ''A'' ''C'' 5] [''A''] {''C''} None
     = Inr graph_ABC"
  using ExplicitGraph_init_validates [of "[Edge3 ''A'' ''B'' 1, Edge3 ''B'' ''C'' 1, Edge3 ''A'' ''C'' 5]"
       "{''A'', ''B'', ''C''}" "[''A'']" "{''Z''}" None]
     ExplicitGraph_init_validates [of "[Edge3 ''A'' ''B'' 1, Edge3 ''B'' ''C'' 1, Edge3 ''A'' ''C'' 5]"
       "{''A'', ''B'', ''C''}" "[''A'']" "{''C''}" None]
  by (simp add: graph_ABC_def)

lemma outgoing_arcs_loop_eq:
  "outgoing_arcs_loop str es node =
     map (\<lambda>e. Arc (Some (edge_tail e)) (edge_head e) (str (edge_tail e) @ ''->'' @ str (edge_head e))
                (case e of Edge2 _ _ \<Rightarrow> 1 | Edge3 _ _ c \<Rightarrow> c))
         (filter (\<lambda>e. edge_tail e = node) es)"
  by (induction es) (simp_all add: Let_def)

text \<open>
  C6. \<^verbatim>\<open>outgoing_arcs(node)\<close> yields one arc for each edge of the edge list whose tail
  is the node, in the order of the edge list. The arc has the tail and the head of the
  edge, the label \<^verbatim>\<open>str(tail) + '->' + str(head)\<close>, and the cost of the edge when the
  edge has one, 1 otherwise.
\<close>

theorem ExplicitGraph_outgoing_arcs_spec:
  "ExplicitGraph_outgoing_arcs str g node =
     map (\<lambda>e. Arc (Some (edge_tail e)) (edge_head e) (str (edge_tail e) @ ''->'' @ str (edge_head e))
                (case e of Edge2 _ _ \<Rightarrow> 1 | Edge3 _ _ c \<Rightarrow> c))
         (filter (\<lambda>e. edge_tail e = node) (edge_list g))"
  by (simp add: ExplicitGraph_outgoing_arcs_def outgoing_arcs_loop_eq)

section \<open>The search loop: what the frontier holds, what the log records\<close>

lemma contents_frontier_add:
  assumes "frontier_contract F contents"
  shows "contents (fst (frontier_add F p st)) \<subseteq># add_mset p (contents (fst st))"
  using assms by (simp add: frontier_contract_def frontier_add_def)

lemma contents_seed_frontier:
  assumes "frontier_contract F contents"
  shows "contents (fst (seed_frontier F ns st)) \<subseteq># contents (fst st) + mset (map seed_path ns)"
proof (induction ns arbitrary: st)
  case Nil
  then show ?case by simp
next
  case (Cons n ns)
  have "contents (fst (seed_frontier F ns (frontier_add F (seed_path n) st)))
          \<subseteq># contents (fst (frontier_add F (seed_path n) st)) + mset (map seed_path ns)"
    by (rule Cons.IH)
  also have "\<dots> \<subseteq># add_mset (seed_path n) (contents (fst st)) + mset (map seed_path ns)"
    using contents_frontier_add [OF assms] by simp
  finally show ?case by simp
qed

lemma contents_expand:
  assumes "frontier_contract F contents"
  shows "contents (fst (expand F p arcs st))
           \<subseteq># contents (fst st) + mset (map (\<lambda>a. p @ [a]) arcs)"
proof (induction arcs arbitrary: st)
  case Nil
  then show ?case by simp
next
  case (Cons a arcs)
  have "contents (fst (expand F p arcs (frontier_add F (p @ [a]) st)))
          \<subseteq># contents (fst (frontier_add F (p @ [a]) st)) + mset (map (\<lambda>a. p @ [a]) arcs)"
    by (rule Cons.IH)
  also have "\<dots> \<subseteq># add_mset (p @ [a]) (contents (fst st)) + mset (map (\<lambda>a. p @ [a]) arcs)"
    using contents_frontier_add [OF assms] by simp
  finally show ?case by simp
qed

lemma log_seed_frontier:
  "snd (seed_frontier F ns st) = snd st @ map (\<lambda>n. FrontierAdd (seed_path n)) ns"
  by (induction ns arbitrary: st) (simp_all add: frontier_add_def)

lemma log_expand:
  "snd (expand F p arcs st) = snd st @ map (\<lambda>a. FrontierAdd (p @ [a])) arcs"
  by (induction arcs arbitrary: st) (simp_all add: frontier_add_def)

lemma search_loop_exhausted:
  "next_path F (fst st) = None \<Longrightarrow> search_loop (Suc k) g F st = (Returned None, st)"
  by simp

lemma search_loop_goal:
  "next_path F (fst st) = Some (p, f') \<Longrightarrow> p \<noteq> [] \<Longrightarrow> is_goal g (head (last p)) \<Longrightarrow>
   search_loop (Suc k) g F st = (Returned (Some p), f', snd st @ [IsGoal (head (last p))])"
  by simp

lemma search_loop_expand:
  "next_path F (fst st) = Some (p, f') \<Longrightarrow> p \<noteq> [] \<Longrightarrow> \<not> is_goal g (head (last p)) \<Longrightarrow>
   search_loop (Suc k) g F st =
     search_loop k g F (expand F p (outgoing_arcs g (head (last p)))
        (f', snd st @ [IsGoal (head (last p)), OutgoingArcs (head (last p))]))"
  by (simp add: Let_def)

lemma search_loop_inv:
  assumes contract: "frontier_contract F contents"
    and step: "\<And>p a. P p \<Longrightarrow> a \<in> set (outgoing_arcs g (head (last p))) \<Longrightarrow> P (p @ [a])"
    and nonempty: "\<And>p. P p \<Longrightarrow> p \<noteq> []"
  shows "(\<forall>p. p \<in># contents (fst st) \<longrightarrow> P p) \<Longrightarrow>
         (\<forall>p. FrontierAdd p \<in> set (snd st) \<longrightarrow> P p) \<Longrightarrow>
         (\<forall>p. FrontierAdd p \<in> set (snd (snd (search_loop k g F st))) \<longrightarrow> P p) \<and>
         (\<forall>p. fst (search_loop k g F st) = Returned (Some p) \<longrightarrow> P p \<and> is_goal g (head (last p))) \<and>
         (\<forall>e. fst (search_loop k g F st) \<noteq> Raised e)"
proof (induction k arbitrary: st)
  case 0
  then show ?case by simp
next
  case (Suc k)
  show ?case
  proof (cases "next_path F (fst st)")
    case None
    with Suc.prems show ?thesis by simp
  next
    case (Some r)
    obtain p f' where r: "r = (p, f')" by (cases r)
    from contract Some r have pin: "p \<in># contents (fst st)"
      and sub: "contents f' \<subseteq># contents (fst st) - {#p#}"
      by (auto simp: frontier_contract_def)
    from pin Suc.prems have Pp: "P p" by blast
    then have ne: "p \<noteq> []" by (rule nonempty)
    show ?thesis
    proof (cases "is_goal g (head (last p))")
      case True
      with Some r ne Pp Suc.prems show ?thesis
        by (simp add: search_loop_goal del: search_loop.simps)
    next
      case False
      let ?n = "head (last p)"
      let ?st = "expand F p (outgoing_arcs g ?n) (f', snd st @ [IsGoal ?n, OutgoingArcs ?n])"
      have c: "\<forall>q. q \<in># contents (fst ?st) \<longrightarrow> P q"
      proof (intro allI impI)
        fix q assume "q \<in># contents (fst ?st)"
        then have "q \<in># contents f' + mset (map (\<lambda>a. p @ [a]) (outgoing_arcs g ?n))"
          using contents_expand [OF contract, of p "outgoing_arcs g ?n" "(f', snd st @ [IsGoal ?n, OutgoingArcs ?n])"]
          by (auto dest: mset_subset_eqD)
        then consider "q \<in># contents f'" | a where "a \<in> set (outgoing_arcs g ?n)" "q = p @ [a]"
          by auto
        then show "P q"
        proof cases
          case 1
          with sub have "q \<in># contents (fst st)"
            by (meson in_diffD mset_subset_eqD)
          with Suc.prems show ?thesis by blast
        next
          case 2
          with Pp step show ?thesis by blast
        qed
      qed
      have l: "\<forall>q. FrontierAdd q \<in> set (snd ?st) \<longrightarrow> P q"
        using Suc.prems(2) Pp step by (auto simp: log_expand)
      from Suc.IH [OF c l] Some r ne False show ?thesis
        by (simp add: search_loop_expand del: search_loop.simps)
    qed
  qed
qed


lemma mult_subseteq:
  assumes "N \<subseteq># N'" and "(N', M) \<in> mult r"
  shows "(N, M) \<in> mult r"
proof (cases "N = N'")
  case True
  with assms show ?thesis by simp
next
  case False
  with assms(1) have "N \<subset># N'" by (simp add: subset_mset.less_le)
  then have "(N, N') \<in> mult r" by (rule subset_implies_mult)
  from this assms(2) show ?thesis unfolding mult_def by (rule trancl_trans)
qed

lemma search_loop_terminates:
  assumes contract: "frontier_contract F contents"
    and wf: "wf (arcs_rel g)"
    and nogoal: "\<forall>n. reachable g n \<longrightarrow> \<not> is_goal g n"
  shows "m = image_mset (\<lambda>p. head (last p)) (contents (fst st)) \<Longrightarrow>
         (\<forall>p. p \<in># contents (fst st) \<longrightarrow> p \<noteq> [] \<and> reachable g (head (last p))) \<Longrightarrow>
         \<exists>k0. \<forall>k\<ge>k0. fst (search_loop k g F st) = Returned None"
proof (induction m arbitrary: st rule: wf_induct_rule [OF wf_mult [OF wf]])
  case (1 m)
  let ?e = "\<lambda>p. head (last p)"
  show ?case
  proof (cases "next_path F (fst st)")
    case None
    have "\<forall>k\<ge>Suc 0. fst (search_loop k g F st) = Returned None"
    proof (intro allI impI)
      fix k assume "Suc 0 \<le> k"
      then obtain k' where "k = Suc k'" by (cases k) auto
      with None show "fst (search_loop k g F st) = Returned None"
        by (simp add: search_loop_exhausted del: search_loop.simps)
    qed
    then show ?thesis by blast
  next
    case (Some r)
    obtain p f' where r: "r = (p, f')" by (cases r)
    from contract Some r have pin: "p \<in># contents (fst st)"
      and sub: "contents f' \<subseteq># contents (fst st) - {#p#}"
      by (auto simp: frontier_contract_def)
    from pin "1.prems"(2) have ne: "p \<noteq> []" and reach: "reachable g (?e p)" by blast+
    from reach nogoal have ng: "\<not> is_goal g (?e p)" by blast
    let ?arcs = "outgoing_arcs g (?e p)"
    let ?st = "expand F p ?arcs (f', snd st @ [IsGoal (?e p), OutgoingArcs (?e p)])"
    let ?M0 = "image_mset ?e (contents (fst st) - {#p#})"
    let ?K = "mset (map head ?arcs)"
    have "contents (fst ?st) \<subseteq># contents f' + mset (map (\<lambda>a. p @ [a]) ?arcs)"
      using contents_expand [OF contract, of p ?arcs "(f', snd st @ [IsGoal (?e p), OutgoingArcs (?e p)])"]
      by simp
    also have "\<dots> \<subseteq># (contents (fst st) - {#p#}) + mset (map (\<lambda>a. p @ [a]) ?arcs)"
      using sub by simp
    finally have bound: "contents (fst ?st) \<subseteq># (contents (fst st) - {#p#}) + mset (map (\<lambda>a. p @ [a]) ?arcs)" .
    have "image_mset ?e (contents (fst ?st))
            \<subseteq># image_mset ?e ((contents (fst st) - {#p#}) + mset (map (\<lambda>a. p @ [a]) ?arcs))"
      using bound by (rule image_mset_subseteq_mono)
    also have "\<dots> = ?M0 + ?K"
      by (simp add: comp_def flip: mset_map)
    finally have le: "image_mset ?e (contents (fst ?st)) \<subseteq># ?M0 + ?K" .
    have m: "m = add_mset (?e p) ?M0"
    proof -
      have "contents (fst st) = add_mset p (contents (fst st) - {#p#})"
        using pin by simp
      then have "image_mset ?e (contents (fst st)) = image_mset ?e (add_mset p (contents (fst st) - {#p#}))"
        by simp
      with "1.prems"(1) show ?thesis by simp
    qed
    have "(?M0 + ?K, m) \<in> mult1 (arcs_rel g)"
    proof (rule mult1I [OF m refl])
      fix b assume "b \<in># ?K"
      then show "(b, ?e p) \<in> arcs_rel g" by (auto simp: arcs_rel_def)
    qed
    then have "(?M0 + ?K, m) \<in> mult (arcs_rel g)" unfolding mult_def by (rule r_into_trancl)
    with le have less: "(image_mset ?e (contents (fst ?st)), m) \<in> mult (arcs_rel g)"
      by (rule mult_subseteq)
    have inv: "\<forall>q. q \<in># contents (fst ?st) \<longrightarrow> q \<noteq> [] \<and> reachable g (?e q)"
    proof (intro allI impI)
      fix q assume "q \<in># contents (fst ?st)"
      with bound have "q \<in># (contents (fst st) - {#p#}) + mset (map (\<lambda>a. p @ [a]) ?arcs)"
        by (meson mset_subset_eqD)
      then consider "q \<in># contents (fst st)" | a where "a \<in> set ?arcs" "q = p @ [a]"
        by (auto dest: in_diffD)
      then show "q \<noteq> [] \<and> reachable g (?e q)"
      proof cases
        case 1
        with "1.prems"(2) show ?thesis by blast
      next
        case 2
        from reach obtain s where s: "s \<in> set (starting_nodes g)" "(?e p, s) \<in> (arcs_rel g)\<^sup>*"
          by (auto simp: reachable_def)
        from 2 have "(head a, ?e p) \<in> arcs_rel g" by (auto simp: arcs_rel_def)
        with s(2) have "(head a, s) \<in> (arcs_rel g)\<^sup>*" by (rule converse_rtrancl_into_rtrancl [rotated])
        with s(1) 2 show ?thesis by (auto simp: reachable_def)
      qed
    qed
    from "1.IH" [OF less refl inv] obtain k0 where
      k0: "\<forall>k\<ge>k0. fst (search_loop k g F ?st) = Returned None" by blast
    have "\<forall>k\<ge>Suc k0. fst (search_loop k g F st) = Returned None"
    proof (intro allI impI)
      fix k assume "Suc k0 \<le> k"
      then obtain k' where k': "k = Suc k'" "k0 \<le> k'" by (cases k) auto
      with k0 Some r ne ng show "fst (search_loop k g F st) = Returned None"
        by (simp add: search_loop_expand del: search_loop.simps)
    qed
    then show ?thesis by blast
  qed
qed

section \<open>Results of the search\<close>

lemma fifo_frontier_contract: "frontier_contract fifo_frontier mset"
  by (auto simp: frontier_contract_def fifo_frontier_def split: list.splits)

lemma seeded_frontier_inv:
  assumes contract: "frontier_contract F contents"
    and empty: "contents f0 = {#}"
    and seeds: "\<And>s. s \<in> set (starting_nodes g) \<Longrightarrow> P (seed_path s)"
  shows "(\<forall>p. p \<in># contents (fst (seed_frontier F (starting_nodes g) (f0, []))) \<longrightarrow> P p) \<and>
         (\<forall>p. FrontierAdd p \<in> set (snd (seed_frontier F (starting_nodes g) (f0, []))) \<longrightarrow> P p)"
proof -
  have "contents (fst (seed_frontier F (starting_nodes g) (f0, [])))
          \<subseteq># mset (map seed_path (starting_nodes g))"
    using contents_seed_frontier [OF contract, of "starting_nodes g" "(f0, [])"] empty by simp
  then have "set_mset (contents (fst (seed_frontier F (starting_nodes g) (f0, []))))
          \<subseteq> seed_path ` set (starting_nodes g)"
    by (auto dest: mset_subset_eqD)
  with seeds show ?thesis by (auto simp: log_seed_frontier)
qed

text \<open>
  C1. With a frontier that keeps its contract and starts empty, a value that
  \<^verbatim>\<open>generic_search\<close> returns other than \<^verbatim>\<open>None\<close> is a non-empty path whose first arc is
  the seed arc \<^verbatim>\<open>Arc(None, s, "no action", 0)\<close> of a starting node \<open>s\<close> of the graph, and
  the head of whose last arc satisfies \<^verbatim>\<open>is_goal\<close>. This holds for every number of
  iterations the loop is given.
\<close>

theorem generic_search_solution:
  assumes "frontier_contract F contents"
    and "contents f0 = {#}"
    and "fst (generic_search k g F f0) = Returned (Some p)"
  shows "p \<noteq> [] \<and> (\<exists>s \<in> set (starting_nodes g). hd p = Arc None s ''no action'' 0) \<and>
         is_goal g (head (last p))"
proof -
  let ?P = "\<lambda>p. p \<noteq> [] \<and> (\<exists>s \<in> set (starting_nodes g). hd p = Arc None s ''no action'' 0)"
  have init: "(\<forall>p. p \<in># contents (fst (seed_frontier F (starting_nodes g) (f0, []))) \<longrightarrow> ?P p) \<and>
         (\<forall>p. FrontierAdd p \<in> set (snd (seed_frontier F (starting_nodes g) (f0, []))) \<longrightarrow> ?P p)"
    by (rule seeded_frontier_inv [OF assms(1,2)]) (simp add: seed_path_def)
  have "?P p \<and> is_goal g (head (last p))"
    using search_loop_inv [where P = ?P, OF assms(1) _ _ conjunct1 [OF init] conjunct2 [OF init], of g k]
      assms(3)
    by (simp add: generic_search_def)
  then show ?thesis by simp
qed


lemmas run_defs =
  generic_search_def as_graph_def graph_ABC_def graph_A_def fifo_frontier_def
  lowest_cost_frontier_def ExplicitGraph_starting_nodes_def ExplicitGraph_is_goal_def
  ExplicitGraph_outgoing_arcs_def seed_path_def frontier_add_def total_cost_def py_sum_def
  Let_def

lemma fifo_run_ABC:
  "generic_search (Suc (Suc (Suc 0))) (as_graph (\<lambda>s. s) graph_ABC) fifo_frontier [] =
     (Returned (Some [Arc None ''A'' ''no action'' 0, Arc (Some ''A'') ''C'' ''A->C'' 5]),
      [[Arc None ''A'' ''no action'' 0, Arc (Some ''A'') ''B'' ''A->B'' 1,
        Arc (Some ''B'') ''C'' ''B->C'' 1]],
      [FrontierAdd [Arc None ''A'' ''no action'' 0], IsGoal ''A'', OutgoingArcs ''A'',
       FrontierAdd [Arc None ''A'' ''no action'' 0, Arc (Some ''A'') ''B'' ''A->B'' 1],
       FrontierAdd [Arc None ''A'' ''no action'' 0, Arc (Some ''A'') ''C'' ''A->C'' 5],
       IsGoal ''B'', OutgoingArcs ''B'',
       FrontierAdd [Arc None ''A'' ''no action'' 0, Arc (Some ''A'') ''B'' ''A->B'' 1,
        Arc (Some ''B'') ''C'' ''B->C'' 1],
       IsGoal ''C''])"
  by (simp add: run_defs)

theorem generic_search_solution_witness:
  "fst (generic_search (Suc (Suc (Suc 0))) (as_graph (\<lambda>s. s) graph_ABC) fifo_frontier []) =
     Returned (Some [Arc None ''A'' ''no action'' 0, Arc (Some ''A'') ''C'' ''A->C'' 5]) \<and>
   hd [Arc None ''A'' ''no action'' 0, Arc (Some ''A'') ''C'' ''A->C'' 5]
     = Arc None ''A'' ''no action'' 0 \<and>
   ''A'' \<in> set (starting_nodes (as_graph (\<lambda>s. s) graph_ABC)) \<and>
   is_goal (as_graph (\<lambda>s. s) graph_ABC)
     (head (last [Arc None ''A'' ''no action'' 0, Arc (Some ''A'') ''C'' ''A->C'' 5]))"
proof -
  have run: "fst (generic_search (Suc (Suc (Suc 0))) (as_graph (\<lambda>s. s) graph_ABC) fifo_frontier []) =
     Returned (Some [Arc None ''A'' ''no action'' 0, Arc (Some ''A'') ''C'' ''A->C'' 5])"
    by (simp add: fifo_run_ABC)
  have empty: "mset ([] :: string path list) = {#}" by simp
  from generic_search_solution [OF fifo_frontier_contract empty run] run
  show ?thesis by (simp add: as_graph_def graph_ABC_def ExplicitGraph_starting_nodes_def)
qed


lemma chained_nth:
  "chained p \<longleftrightarrow> (\<forall>i. Suc i < length p \<longrightarrow> tail (p ! Suc i) = Some (head (p ! i)))"
proof (induction p rule: chained.induct)
  case (1 a b rest)
  show ?case
  proof
    assume c: "chained (a # b # rest)"
    show "\<forall>i. Suc i < length (a # b # rest) \<longrightarrow>
              tail ((a # b # rest) ! Suc i) = Some (head ((a # b # rest) ! i))"
    proof (intro allI impI)
      fix i assume "Suc i < length (a # b # rest)"
      with c 1 show "tail ((a # b # rest) ! Suc i) = Some (head ((a # b # rest) ! i))"
        by (cases i) auto
    qed
  next
    assume r: "\<forall>i. Suc i < length (a # b # rest) \<longrightarrow>
              tail ((a # b # rest) ! Suc i) = Some (head ((a # b # rest) ! i))"
    from r [rule_format, of 0] have "tail b = Some (head a)" by simp
    moreover have "\<forall>i. Suc i < length (b # rest) \<longrightarrow>
              tail ((b # rest) ! Suc i) = Some (head ((b # rest) ! i))"
    proof (intro allI impI)
      fix i assume "Suc i < length (b # rest)"
      with r [rule_format, of "Suc i"]
      show "tail ((b # rest) ! Suc i) = Some (head ((b # rest) ! i))" by simp
    qed
    ultimately show "chained (a # b # rest)" using 1 by simp
  qed
qed simp_all

lemma chained_snoc:
  "chained p \<Longrightarrow> p \<noteq> [] \<Longrightarrow> tail a = Some (head (last p)) \<Longrightarrow> chained (p @ [a])"
  by (induction p rule: chained.induct) auto

lemma well_formed_seed: "well_formed (seed_path s)"
  by (simp add: well_formed_def seed_path_def)

lemma well_formed_nonempty: "well_formed p \<Longrightarrow> p \<noteq> []"
  by (auto simp: well_formed_def)

lemma well_formed_snoc:
  assumes "well_formed p" and "tail a = Some (head (last p))"
  shows "well_formed (p @ [a])"
proof -
  from assms(1) obtain b rest where p: "p = b # rest"
    by (cases p) (auto simp: well_formed_def)
  from assms(1) have "chained p" by (simp add: well_formed_def)
  with assms(2) p have "chained (p @ [a])" by (intro chained_snoc) auto
  with assms(1) p show ?thesis by (simp add: well_formed_def)
qed

text \<open>
  C4. With a frontier that keeps its contract and starts empty, and a graph whose
  \<^verbatim>\<open>outgoing_arcs(n)\<close> yields only arcs with tail \<open>n\<close>, every path passed to
  \<^verbatim>\<open>frontier.add\<close> (at any point of the run, whether or not the loop ends) is well-formed:
  it is not empty, its first arc has tail \<^verbatim>\<open>None\<close>, label "no action" and cost 0, and of
  every two adjacent arcs the head of the earlier is the tail of the later.
\<close>

theorem generic_search_adds_well_formed:
  assumes "frontier_contract F contents"
    and "contents f0 = {#}"
    and "\<forall>n. \<forall>a \<in> set (outgoing_arcs g n). tail a = Some n"
    and "FrontierAdd p \<in> set (snd (snd (generic_search k g F f0)))"
  shows "p \<noteq> [] \<and> tail (hd p) = None \<and> label (hd p) = ''no action'' \<and> cost (hd p) = 0 \<and>
         (\<forall>i. Suc i < length p \<longrightarrow> tail (p ! Suc i) = Some (head (p ! i)))"
proof -
  have init: "(\<forall>p. p \<in># contents (fst (seed_frontier F (starting_nodes g) (f0, []))) \<longrightarrow> well_formed p) \<and>
         (\<forall>p. FrontierAdd p \<in> set (snd (seed_frontier F (starting_nodes g) (f0, []))) \<longrightarrow> well_formed p)"
    by (rule seeded_frontier_inv [OF assms(1,2)]) (rule well_formed_seed)
  have step: "\<And>p a. well_formed p \<Longrightarrow> a \<in> set (outgoing_arcs g (head (last p))) \<Longrightarrow>
                 well_formed (p @ [a])"
    using assms(3) by (blast intro: well_formed_snoc)
  have "well_formed p"
    using search_loop_inv [where P = well_formed and k = k, OF assms(1) step well_formed_nonempty
        conjunct1 [OF init] conjunct2 [OF init]] assms(4)
    by (simp add: generic_search_def)
  then show ?thesis
    by (cases p) (auto simp: well_formed_def chained_nth)
qed

lemma frontier_contract_next:
  "frontier_contract F contents \<Longrightarrow> next_path F f = Some (p, f') \<Longrightarrow>
   p \<in># contents f \<and> contents f' \<subseteq># contents f - {#p#}"
  unfolding frontier_contract_def by blast

lemma empty_frontier_exhausted:
  assumes "frontier_contract F contents" and "contents f = {#}"
  shows "next_path F f = None"
proof (cases "next_path F f")
  case (Some r)
  obtain p f' where "r = (p, f')" by (cases r)
  with Some frontier_contract_next [OF assms(1), of f p f'] assms(2) show ?thesis by simp
qed simp

text \<open>
  C8. For a graph with no starting node, and a frontier that keeps its contract and
  starts empty, \<^verbatim>\<open>generic_search\<close> raises nothing and returns \<^verbatim>\<open>None\<close> at the first
  request for a path: the log of calls is empty (no path added, no goal test, no
  expansion) and the frontier is in its initial state.
\<close>

theorem generic_search_no_starting_nodes:
  assumes "frontier_contract F contents"
    and "contents f0 = {#}"
    and "starting_nodes g = []"
  shows "generic_search (Suc k) g F f0 = (Returned None, f0, [])"
proof -
  have "next_path F f0 = None"
    using assms(1,2) by (rule empty_frontier_exhausted)
  with assms(3) show ?thesis
    by (simp add: generic_search_def)
qed

theorem generic_search_no_starting_nodes_witness:
  "generic_search (Suc 0)
     \<lparr>starting_nodes = [], is_goal = (\<lambda>n. n = ''C''),
      outgoing_arcs = ExplicitGraph_outgoing_arcs (\<lambda>s. s) graph_ABC\<rparr> fifo_frontier []
   = (Returned None, [], [])"
proof -
  have empty: "mset ([] :: string path list) = {#}" by simp
  show ?thesis
    using generic_search_no_starting_nodes [OF fifo_frontier_contract empty, of _ 0]
    by simp
qed


lemma frontier_contract_add:
  "frontier_contract F contents \<Longrightarrow> contents (add F p f) \<subseteq># add_mset p (contents f)"
  unfolding frontier_contract_def by blast

lemma next_path_nonempty:
  assumes "frontier_contract F contents" and "exhausted_only_when_empty F contents"
    and "contents f \<noteq> {#}"
  obtains p f' where "next_path F f = Some (p, f')" and "p \<in># contents f"
    and "contents f' \<subseteq># contents f - {#p#}"
proof (cases "next_path F f")
  case None
  with assms(2,3) show ?thesis by (simp add: exhausted_only_when_empty_def)
next
  case (Some r)
  obtain p f' where "r = (p, f')" by (cases r)
  with Some frontier_contract_next [OF assms(1), of f p f'] that show ?thesis by simp
qed

text \<open>
  C7. For the graph with the node set \<open>{A}\<close>, no edge, the starting list \<open>[A]\<close> and
  the goal set \<open>{A}\<close> (its construction succeeds), with any frontier that keeps its
  contract, starts empty, admits the seed path and is exhausted only when it holds no
  path, \<^verbatim>\<open>generic_search\<close> returns the one-arc path \<^verbatim>\<open>(Arc(None, A, "no action", 0),)\<close>, whose
  total cost is 0.
\<close>

theorem generic_search_start_is_goal:
  assumes contract: "frontier_contract F contents"
    and empty: "contents f0 = {#}"
    and live: "exhausted_only_when_empty F contents"
    and admit: "seed_path ''A'' \<in># contents (add F (seed_path ''A'') f0)"
  shows "ExplicitGraph_init {''A''} [] [''A''] {''A''} None = Inr graph_A \<and>
         fst (generic_search (Suc k) (as_graph str graph_A) F f0)
           = Returned (Some [Arc None ''A'' ''no action'' 0]) \<and>
         total_cost [Arc None ''A'' ''no action'' 0] = 0"
proof -
  let ?f1 = "add F (seed_path ''A'') f0"
  have "contents ?f1 \<subseteq># add_mset (seed_path ''A'') (contents f0)"
    using contract unfolding frontier_contract_def by blast
  with empty have sub: "contents ?f1 \<subseteq># {#seed_path ''A''#}" by simp
  from admit have "contents ?f1 \<noteq> {#}" by auto
  from next_path_nonempty [OF contract live this] obtain p f'
    where nx: "next_path F ?f1 = Some (p, f')" and pin: "p \<in># contents ?f1" by blast
  from pin sub have p: "p = seed_path ''A''"
    by (auto dest: mset_subset_eqD)
  have "search_loop (Suc k) (as_graph str graph_A) F (?f1, [FrontierAdd (seed_path ''A'')])
          = (Returned (Some p), f', [FrontierAdd (seed_path ''A''), IsGoal (head (last p))])"
    using nx p
    by (subst search_loop_goal [where p = p and f' = f'])
       (simp_all add: seed_path_def as_graph_def graph_A_def ExplicitGraph_is_goal_def)
  then have "fst (generic_search (Suc k) (as_graph str graph_A) F f0) = Returned (Some p)"
    by (simp add: generic_search_def as_graph_def graph_A_def ExplicitGraph_starting_nodes_def
        frontier_add_def del: search_loop.simps)
  with p show ?thesis
    by (simp add: seed_path_def ExplicitGraph_init_def graph_A_def total_cost_def py_sum_def)
qed

lemma admits_all_add:
  "admits_all F contents \<Longrightarrow> contents (add F p f) = add_mset p (contents f)"
  unfolding admits_all_def by blast

lemma cheapest_first_next:
  "cheapest_first F contents \<Longrightarrow> next_path F f = Some (p, f') \<Longrightarrow> q \<in># contents f \<Longrightarrow>
   total_cost p \<le> total_cost q"
  unfolding cheapest_first_def by blast

lemma next_path_not_exhausted:
  assumes "exhausted_only_when_empty F contents" and "contents f \<noteq> {#}"
  shows "\<exists>p f'. next_path F f = Some (p, f')"
proof (cases "next_path F f")
  case None
  with assms show ?thesis by (simp add: exhausted_only_when_empty_def)
next
  case (Some r)
  then show ?thesis by (cases r) simp
qed

lemma graph_ABC_facts:
  "starting_nodes (as_graph (\<lambda>s. s) graph_ABC) = [''A'']"
  "is_goal (as_graph (\<lambda>s. s) graph_ABC) n \<longleftrightarrow> n = ''C''"
  "outgoing_arcs (as_graph (\<lambda>s. s) graph_ABC) ''A'' =
     [Arc (Some ''A'') ''B'' ''A->B'' 1, Arc (Some ''A'') ''C'' ''A->C'' 5]"
  "outgoing_arcs (as_graph (\<lambda>s. s) graph_ABC) ''B'' = [Arc (Some ''B'') ''C'' ''B->C'' 1]"
  by (simp_all add: as_graph_def graph_ABC_def ExplicitGraph_starting_nodes_def
      ExplicitGraph_is_goal_def ExplicitGraph_outgoing_arcs_def Let_def)

lemma total_cost_seed [simp]: "total_cost (seed_path a) = 0"
  by (simp add: total_cost_def py_sum_def seed_path_def)

lemma total_cost_snoc [simp]: "total_cost (p @ [x]) = total_cost p + cost x"
  by (simp add: total_cost_def py_sum_def)

lemma seed_path_last [simp]: "head (last (seed_path a)) = a" "seed_path a \<noteq> []"
  by (simp_all add: seed_path_def)

lemma cheapest_first_two_routes:
  assumes contract: "frontier_contract F contents"
    and empty: "contents f0 = {#}"
    and live: "exhausted_only_when_empty F contents"
    and admit: "admits_all F contents"
    and cheap: "cheapest_first F contents"
    and start: "starting_nodes g = [a]"
    and na: "\<not> is_goal g a"
    and arcs_a: "outgoing_arcs g a = [ab, ac]"
    and nb: "\<not> is_goal g (head ab)"
    and arcs_b: "outgoing_arcs g (head ab) = [bc]"
    and goal: "is_goal g (head bc)"
    and less1: "cost ab < cost ac"
    and less2: "cost ab + cost bc < cost ac"
  shows "fst (generic_search (Suc (Suc (Suc k))) g F f0)
           = Returned (Some (seed_path a @ [ab, bc]))"
proof -
  let ?sA = "seed_path a"
  let ?f1 = "add F ?sA f0"
  let ?l1 = "[FrontierAdd ?sA]"
  have c1: "contents ?f1 = {#?sA#}"
    using admits_all_add [OF admit, of ?sA f0] empty by simp
  then have "contents ?f1 \<noteq> {#}" by simp
  from next_path_not_exhausted [OF live this] obtain p1 f2
    where n1: "next_path F ?f1 = Some (p1, f2)" by blast
  note nx1 = frontier_contract_next [OF contract n1]
  from conjunct1 [OF nx1] c1 have p1: "p1 = ?sA" by simp
  from conjunct2 [OF nx1] have "contents f2 \<subseteq># {#?sA#} - {#?sA#}"
    unfolding c1 p1 .
  then have c2: "contents f2 = {#}" by simp
  let ?l2 = "?l1 @ [IsGoal a, OutgoingArcs a]"
  let ?f3 = "add F (?sA @ [ac]) (add F (?sA @ [ab]) f2)"
  let ?l3 = "?l2 @ [FrontierAdd (?sA @ [ab]), FrontierAdd (?sA @ [ac])]"
  have step1: "search_loop (Suc (Suc (Suc k))) g F (?f1, ?l1)
                 = search_loop (Suc (Suc k)) g F (?f3, ?l3)"
    using n1 p1 na arcs_a
    by (subst search_loop_expand [where p = p1 and f' = f2])
       (simp_all add: frontier_add_def del: search_loop.simps)
  have c3: "contents ?f3 = {#?sA @ [ab], ?sA @ [ac]#}"
    using c2 by (simp add: admits_all_add [OF admit])
  then have "contents ?f3 \<noteq> {#}" by simp
  from next_path_not_exhausted [OF live this] obtain p2 f4
    where n2: "next_path F ?f3 = Some (p2, f4)" by blast
  note nx2 = frontier_contract_next [OF contract n2]
  note in2 = conjunct1 [OF nx2] and sub2 = conjunct2 [OF nx2]
  have "total_cost p2 \<le> total_cost (?sA @ [ab])"
    using cheapest_first_next [OF cheap n2, of "?sA @ [ab]"] c3 by simp
  then have "total_cost p2 \<le> cost ab" by simp
  with in2 c3 less1 have p2: "p2 = ?sA @ [ab]" by auto
  from sub2 have c4: "contents f4 \<subseteq># {#?sA @ [ac]#}"
    unfolding c3 p2 by simp
  let ?l4 = "?l3 @ [IsGoal (head ab), OutgoingArcs (head ab)]"
  let ?f5 = "add F (?sA @ [ab, bc]) f4"
  let ?l5 = "?l4 @ [FrontierAdd (?sA @ [ab, bc])]"
  have step2: "search_loop (Suc (Suc k)) g F (?f3, ?l3) = search_loop (Suc k) g F (?f5, ?l5)"
    using n2 p2 nb arcs_b
    by (subst search_loop_expand [where p = p2 and f' = f4])
       (simp_all add: frontier_add_def del: search_loop.simps)
  have c5: "contents ?f5 = add_mset (?sA @ [ab, bc]) (contents f4)"
    by (rule admits_all_add [OF admit])
  then have "contents ?f5 \<noteq> {#}" by simp
  from next_path_not_exhausted [OF live this] obtain p3 f6
    where n3: "next_path F ?f5 = Some (p3, f6)" by blast
  note in3 = conjunct1 [OF frontier_contract_next [OF contract n3]]
  have "total_cost p3 \<le> total_cost (?sA @ [ab, bc])"
    using cheapest_first_next [OF cheap n3, of "?sA @ [ab, bc]"] c5 by simp
  then have le3: "total_cost p3 \<le> cost ab + cost bc"
    using total_cost_snoc [of "?sA @ [ab]" bc] by simp
  from in3 c5 have "p3 = ?sA @ [ab, bc] \<or> p3 \<in># contents f4" by auto
  then have p3: "p3 = ?sA @ [ab, bc]"
  proof
    assume "p3 \<in># contents f4"
    with c4 have "p3 = ?sA @ [ac]" by (auto dest: mset_subset_eqD)
    with le3 less2 show ?thesis by simp
  qed
  have step3: "search_loop (Suc k) g F (?f5, ?l5) = (Returned (Some p3), f6, ?l5 @ [IsGoal (head bc)])"
    using n3 p3 goal
    by (subst search_loop_goal [where p = p3 and f' = f6])
       (simp_all del: search_loop.simps)
  have "generic_search (Suc (Suc (Suc k))) g F f0
          = search_loop (Suc (Suc (Suc k))) g F (?f1, ?l1)"
    by (simp add: generic_search_def start frontier_add_def del: search_loop.simps)
  with step1 step2 step3 p3 show ?thesis
    by (simp del: search_loop.simps)
qed

text \<open>
  C2. For the graph with the nodes \<open>{A, B, C}\<close>, the edges \<open>[(A,B,1), (B,C,1), (A,C,5)]\<close>,
  the starting list \<open>[A]\<close> and the goal set \<open>{C}\<close> (its construction succeeds), with any
  frontier that keeps its contract, starts empty, keeps every path it is given, is
  exhausted only when it holds no path and produces a path of least total cost,
  \<^verbatim>\<open>generic_search\<close> returns the path \<open>A->B->C\<close>, of total cost 2, and not the path
  \<open>A->C\<close>, of total cost 5.
\<close>

theorem generic_search_cheapest_first_ABC:
  assumes "frontier_contract F contents"
    and "contents f0 = {#}"
    and "exhausted_only_when_empty F contents"
    and "admits_all F contents"
    and "cheapest_first F contents"
  shows "ExplicitGraph_init {''A'', ''B'', ''C''}
           [Edge3 ''A'' ''B'' 1, Edge3 ''B'' ''C'' 1, Edge3 ''A'' ''C'' 5] [''A''] {''C''} None
           = Inr graph_ABC \<and>
         fst (generic_search (Suc (Suc (Suc k))) (as_graph (\<lambda>s. s) graph_ABC) F f0)
           = Returned (Some [Arc None ''A'' ''no action'' 0, Arc (Some ''A'') ''B'' ''A->B'' 1,
                             Arc (Some ''B'') ''C'' ''B->C'' 1]) \<and>
         total_cost [Arc None ''A'' ''no action'' 0, Arc (Some ''A'') ''B'' ''A->B'' 1,
                     Arc (Some ''B'') ''C'' ''B->C'' 1] = 2 \<and>
         total_cost [Arc None ''A'' ''no action'' 0, Arc (Some ''A'') ''C'' ''A->C'' 5] = 5"
proof -
  have "fst (generic_search (Suc (Suc (Suc k))) (as_graph (\<lambda>s. s) graph_ABC) F f0)
          = Returned (Some (seed_path ''A'' @
              [Arc (Some ''A'') ''B'' ''A->B'' 1, Arc (Some ''B'') ''C'' ''B->C'' 1]))"
    by (rule cheapest_first_two_routes [OF assms, where ac = "Arc (Some ''A'') ''C'' ''A->C'' 5"])
       (simp_all add: graph_ABC_facts)
  then show ?thesis
    by (simp add: seed_path_def ExplicitGraph_init_def graph_ABC_def total_cost_def py_sum_def)
qed

section \<open>The properties at concrete inputs\<close>

lemma pick_cheapest_mem: "pick_cheapest b qs \<in> set (b # qs)"
  by (induction qs arbitrary: b) auto

lemma pick_cheapest_le: "q \<in> set (b # qs) \<Longrightarrow> total_cost (pick_cheapest b qs) \<le> total_cost q"
proof (induction qs arbitrary: b q)
  case Nil
  then show ?case by simp
next
  case (Cons x qs)
  have le_b: "total_cost (pick_cheapest b' qs) \<le> total_cost b'" for b'
    using Cons.IH [of b' b'] by simp
  show ?case
  proof (cases "total_cost x < total_cost b")
    case True
    with Cons.prems Cons.IH [of q x] Cons.IH [of q b] le_b [of x] show ?thesis by auto
  next
    case False
    with Cons.prems Cons.IH [of q b] Cons.IH [of q x] le_b [of b] show ?thesis by auto
  qed
qed

lemma lowest_cost_frontier_contract: "frontier_contract lowest_cost_frontier mset"
proof -
  have "mset (remove1 (pick_cheapest q rest) (q # rest))
          \<subseteq># mset (q # rest) - {#pick_cheapest q rest#}" for q :: "'a path" and rest
    by (simp only: mset_remove1 subset_mset.order_refl)
  then show ?thesis
    using pick_cheapest_mem
    by (auto simp: frontier_contract_def lowest_cost_frontier_def Let_def split: list.splits
        simp del: mset_remove1)
qed

lemma lowest_cost_frontier_live: "exhausted_only_when_empty lowest_cost_frontier mset"
  by (auto simp: exhausted_only_when_empty_def lowest_cost_frontier_def Let_def split: list.splits)

lemma lowest_cost_frontier_admits: "admits_all lowest_cost_frontier mset"
  by (simp add: admits_all_def lowest_cost_frontier_def)

lemma lowest_cost_frontier_cheapest: "cheapest_first lowest_cost_frontier mset"
  using pick_cheapest_le
  by (auto simp: cheapest_first_def lowest_cost_frontier_def Let_def split: list.splits)

lemma fifo_frontier_live: "exhausted_only_when_empty fifo_frontier mset"
  by (auto simp: exhausted_only_when_empty_def fifo_frontier_def split: list.splits)


theorem generic_search_cheapest_first_ABC_witness:
  "fst (generic_search (Suc (Suc (Suc 0))) (as_graph (\<lambda>s. s) graph_ABC) lowest_cost_frontier [])
     = Returned (Some [Arc None ''A'' ''no action'' 0, Arc (Some ''A'') ''B'' ''A->B'' 1,
                       Arc (Some ''B'') ''C'' ''B->C'' 1]) \<and>
   total_cost [Arc None ''A'' ''no action'' 0, Arc (Some ''A'') ''B'' ''A->B'' 1,
               Arc (Some ''B'') ''C'' ''B->C'' 1] = 2"
proof -
  have empty: "mset ([] :: string path list) = {#}" by simp
  from generic_search_cheapest_first_ABC [OF lowest_cost_frontier_contract empty
      lowest_cost_frontier_live lowest_cost_frontier_admits lowest_cost_frontier_cheapest, of 0]
  show ?thesis by simp
qed

theorem generic_search_start_is_goal_witness:
  "fst (generic_search (Suc 0) (as_graph (\<lambda>s. s) graph_A) fifo_frontier [])
     = Returned (Some [Arc None ''A'' ''no action'' 0]) \<and>
   total_cost [Arc None ''A'' ''no action'' 0] = 0"
proof -
  have empty: "mset ([] :: string path list) = {#}" by simp
  have admit: "seed_path ''A'' \<in># mset (add fifo_frontier (seed_path ''A'') [])"
    by (simp add: fifo_frontier_def)
  from generic_search_start_is_goal [OF fifo_frontier_contract empty fifo_frontier_live admit,
      of 0 "\<lambda>s. s"]
  show ?thesis by simp
qed

lemma ExplicitGraph_outgoing_arcs_tail:
  "a \<in> set (ExplicitGraph_outgoing_arcs str eg n) \<Longrightarrow> tail a = Some n"
  by (auto simp: ExplicitGraph_outgoing_arcs_def outgoing_arcs_loop_eq)

theorem generic_search_adds_well_formed_witness:
  "FrontierAdd [Arc None ''A'' ''no action'' 0, Arc (Some ''A'') ''B'' ''A->B'' 1,
                Arc (Some ''B'') ''C'' ''B->C'' 1]
     \<in> set (snd (snd (generic_search (Suc (Suc (Suc 0))) (as_graph (\<lambda>s. s) graph_ABC)
                         fifo_frontier []))) \<and>
   tail (hd [Arc None ''A'' ''no action'' 0, Arc (Some ''A'') ''B'' ''A->B'' 1,
             Arc (Some ''B'') ''C'' ''B->C'' 1]) = None \<and>
   tail ([Arc None ''A'' ''no action'' 0, Arc (Some ''A'') ''B'' ''A->B'' 1,
          Arc (Some ''B'') ''C'' ''B->C'' 1] ! Suc (Suc 0))
     = Some (head ([Arc None ''A'' ''no action'' 0, Arc (Some ''A'') ''B'' ''A->B'' 1,
                    Arc (Some ''B'') ''C'' ''B->C'' 1] ! Suc 0))"
proof -
  let ?p = "[Arc None ''A'' ''no action'' 0, Arc (Some ''A'') ''B'' ''A->B'' 1,
             Arc (Some ''B'') ''C'' ''B->C'' 1] :: string path"
  have empty: "mset ([] :: string path list) = {#}" by simp
  have tails: "\<forall>n. \<forall>a \<in> set (outgoing_arcs (as_graph (\<lambda>s. s) graph_ABC) n). tail a = Some n"
    by (simp add: as_graph_def ExplicitGraph_outgoing_arcs_tail)
  have mem: "FrontierAdd ?p \<in> set (snd (snd (generic_search (Suc (Suc (Suc 0)))
                (as_graph (\<lambda>s. s) graph_ABC) fifo_frontier [])))"
    by (simp add: fifo_run_ABC)
  from generic_search_adds_well_formed [OF fifo_frontier_contract empty tails mem] mem
  show ?thesis by simp
qed

section \<open>Termination without a reachable goal\<close>

lemma search_loop_None_exhausted:
  "fst (search_loop k g F st) = Returned None \<Longrightarrow>
   next_path F (fst (snd (search_loop k g F st))) = None"
proof (induction k arbitrary: st)
  case 0
  then show ?case by simp
next
  case (Suc k)
  show ?case
  proof (cases "next_path F (fst st)")
    case None
    then show ?thesis by simp
  next
    case (Some r)
    obtain p f' where r: "r = (p, f')" by (cases r)
    show ?thesis
    proof (cases "p = []")
      case True
      with Some r Suc.prems show ?thesis by simp
    next
      case False
      show ?thesis
      proof (cases "is_goal g (head (last p))")
        case True
        with Some r \<open>p \<noteq> []\<close> Suc.prems show ?thesis
          by (simp add: search_loop_goal del: search_loop.simps)
      next
        case False
        with Some r \<open>p \<noteq> []\<close> Suc.prems Suc.IH show ?thesis
          by (simp add: search_loop_expand del: search_loop.simps)
      qed
    qed
  qed
qed

text \<open>
  C3. For a finite acyclic graph in which no node reachable from a starting node is a
  goal, and a frontier that keeps its contract and starts empty, \<^verbatim>\<open>generic_search\<close>
  terminates: from some number of iterations on it returns \<^verbatim>\<open>None\<close>, and it does so when
  the frontier produces no further path.
\<close>

theorem generic_search_no_goal_reachable:
  assumes "frontier_contract F contents"
    and "contents f0 = {#}"
    and "finite (arcs_rel g)"
    and "acyclic (arcs_rel g)"
    and "\<forall>n. reachable g n \<longrightarrow> \<not> is_goal g n"
  shows "\<exists>k0. \<forall>k\<ge>k0. fst (generic_search k g F f0) = Returned None \<and>
           next_path F (fst (snd (generic_search k g F f0))) = None"
proof -
  let ?P = "\<lambda>p. p \<noteq> [] \<and> reachable g (head (last p))"
  have wf: "wf (arcs_rel g)"
    using assms(3,4) by (rule finite_acyclic_wf)
  have init: "(\<forall>p. p \<in># contents (fst (seed_frontier F (starting_nodes g) (f0, []))) \<longrightarrow> ?P p) \<and>
         (\<forall>p. FrontierAdd p \<in> set (snd (seed_frontier F (starting_nodes g) (f0, []))) \<longrightarrow> ?P p)"
    by (rule seeded_frontier_inv [OF assms(1,2)]) (auto simp: reachable_def)
  from search_loop_terminates [OF assms(1) wf assms(5) refl conjunct1 [OF init]]
  obtain k0 where k0: "\<forall>k\<ge>k0. fst (generic_search k g F f0) = Returned None"
    unfolding generic_search_def by blast
  have "\<forall>k\<ge>k0. fst (generic_search k g F f0) = Returned None \<and>
           next_path F (fst (snd (generic_search k g F f0))) = None"
  proof (intro allI impI)
    fix k assume "k0 \<le> k"
    with k0 have r: "fst (generic_search k g F f0) = Returned None" by blast
    then have "next_path F (fst (snd (generic_search k g F f0))) = None"
      unfolding generic_search_def by (rule search_loop_None_exhausted)
    with r show "fst (generic_search k g F f0) = Returned None \<and>
           next_path F (fst (snd (generic_search k g F f0))) = None" ..
  qed
  then show ?thesis ..
qed


lemma ExplicitGraph_outgoing_heads:
  "head ` set (ExplicitGraph_outgoing_arcs str eg n)
     = edge_head ` {e \<in> set (edge_list eg). edge_tail e = n}"
  by (simp add: ExplicitGraph_outgoing_arcs_def outgoing_arcs_loop_eq image_image)

lemma arcs_rel_as_graph:
  "arcs_rel (as_graph str eg) = (\<lambda>e. (edge_head e, edge_tail e)) ` set (edge_list eg)"
proof (rule set_eqI)
  fix x :: "'a \<times> 'a"
  obtain m n where x: "x = (m, n)" by (cases x)
  have "(m, n) \<in> arcs_rel (as_graph str eg)
          \<longleftrightarrow> m \<in> head ` set (ExplicitGraph_outgoing_arcs str eg n)"
    by (auto simp: arcs_rel_def as_graph_def)
  also have "\<dots> \<longleftrightarrow> (\<exists>e \<in> set (edge_list eg). edge_tail e = n \<and> edge_head e = m)"
    unfolding ExplicitGraph_outgoing_heads by auto
  also have "\<dots> \<longleftrightarrow> (m, n) \<in> (\<lambda>e. (edge_head e, edge_tail e)) ` set (edge_list eg)"
    by auto
  finally show "x \<in> arcs_rel (as_graph str eg)
          \<longleftrightarrow> x \<in> (\<lambda>e. (edge_head e, edge_tail e)) ` set (edge_list eg)"
    by (simp only: x)
qed

theorem generic_search_no_goal_reachable_witness:
  "\<exists>k0. \<forall>k\<ge>k0.
     fst (generic_search k
            (as_graph (\<lambda>s. s) (graph_ABC\<lparr>nodes := {''A'', ''B'', ''C'', ''D''}, goal_nodes := {''D''}\<rparr>))
            fifo_frontier []) = Returned None \<and>
     next_path fifo_frontier
       (fst (snd (generic_search k
            (as_graph (\<lambda>s. s) (graph_ABC\<lparr>nodes := {''A'', ''B'', ''C'', ''D''}, goal_nodes := {''D''}\<rparr>))
            fifo_frontier []))) = None"
proof -
  let ?G = "as_graph (\<lambda>s. s)
              (graph_ABC\<lparr>nodes := {''A'', ''B'', ''C'', ''D''}, goal_nodes := {''D''}\<rparr>)"
  have empty: "mset ([] :: string path list) = {#}" by simp
  have rel: "arcs_rel ?G = {(''B'', ''A''), (''C'', ''B''), (''C'', ''A'')}"
    by (simp add: arcs_rel_as_graph graph_ABC_def)
  have fin: "finite (arcs_rel ?G)" by (simp add: rel)
  have acyc: "acyclic (arcs_rel ?G)"
  proof (rule acyclicI_order)
    fix a b assume "(a, b) \<in> arcs_rel ?G"
    then show "(if b = ''A'' then 0 else if b = ''B'' then 1 else (2::nat))
              < (if a = ''A'' then 0 else if a = ''B'' then 1 else 2)"
      by (auto simp: rel)
  qed
  have reach: "n \<in> {''A'', ''B'', ''C''}" if "(n, ''A'') \<in> (arcs_rel ?G)\<^sup>*" for n
    using that by (induction rule: converse_rtrancl_induct) (auto simp: rel)
  have nogoal: "\<forall>n. reachable ?G n \<longrightarrow> \<not> is_goal ?G n"
  proof (intro allI impI)
    fix n assume "reachable ?G n"
    then have "(n, ''A'') \<in> (arcs_rel ?G)\<^sup>*"
      by (simp add: reachable_def as_graph_def graph_ABC_def ExplicitGraph_starting_nodes_def)
    then have "n \<in> {''A'', ''B'', ''C''}" by (rule reach)
    then show "\<not> is_goal ?G n"
      by (auto simp: as_graph_def ExplicitGraph_is_goal_def)
  qed
  show ?thesis
    by (rule generic_search_no_goal_reachable [OF fifo_frontier_contract empty fin acyc nogoal])
qed


section \<open>The output of print_actions\<close>

lemma foldl_plus_int: "foldl (+) a xs = a + sum_list (xs :: int list)"
  by (induction xs arbitrary: a) simp_all

lemma py_sum_sum_list: "py_sum xs = sum_list xs"
  by (simp add: py_sum_def foldl_plus_int)

lemma printed_label_line: "printed_label [Str (''  '' @ l @ [c])] = l"
  by simp

lemma printed_actions_nonempty:
  assumes "p \<noteq> []"
  shows "printed_actions (print_actions (Some p)) = map label (butlast (tl p)) @ [label (last p)]"
proof -
  have "butlast (tl (print_actions (Some p))) =
          map (\<lambda>arc. [Str (''  '' @ label arc @ '','')]) (butlast (tl p))
          @ [[Str (''  '' @ label (last p) @ ''.'')]]"
    using assms by (simp add: print_actions_def butlast_append)
  then show ?thesis
    by (simp add: printed_actions_def comp_def)
qed

lemma printed_total_nonempty:
  assumes "p \<noteq> []"
  shows "printed_total (print_actions (Some p)) = Some (sum_list (map cost p))"
proof -
  obtain l ls where out: "print_actions (Some p) = l # ls"
    using assms by (simp add: print_actions_def)
  have "last (print_actions (Some p)) = [Str ''Total Cost:'', Num (py_sum (map cost p))]"
    using assms by (simp add: print_actions_def)
  then show ?thesis
    unfolding out by (simp add: py_sum_sum_list)
qed

text \<open>
  C9, as amended. Given \<^verbatim>\<open>None\<close>, \<^verbatim>\<open>print_actions\<close> prints the one line "There is no
  solution!". Given a non-empty path, the total it prints is the sum of the costs of all
  arcs of the path, and the actions it lists are the labels of all arcs but the first,
  in the order of the path, when the path has at least two arcs; for a path of one arc
  it lists the label of that arc.
\<close>

theorem print_actions_spec:
  "print_actions (None :: 'n path option) = [[Str ''There is no solution!'']] \<and>
   ((p :: 'n path) \<noteq> [] \<longrightarrow>
      printed_actions (print_actions (Some p))
        = (if length p = 1 then [label (hd p)] else map label (tl p)) \<and>
      printed_total (print_actions (Some p)) = Some (sum_list (map cost p)))"
proof (intro conjI impI)
  show "print_actions (None :: 'n path option) = [[Str ''There is no solution!'']]"
    by (simp add: print_actions_def)
next
  assume ne: "p \<noteq> []"
  show "printed_actions (print_actions (Some p))
        = (if length p = 1 then [label (hd p)] else map label (tl p))"
  proof (cases "tl p = []")
    case True
    with ne have "p = [hd p]" by (cases p) simp_all
    then have "length p = 1" "last p = hd p" by (metis length_Cons list.size(3) One_nat_def, metis last.simps)
    with True ne show ?thesis by (simp add: printed_actions_nonempty)
  next
    case False
    with ne have "length p \<noteq> 1" by (cases p) simp_all
    moreover from False ne have "last p = last (tl p)" by (cases p) simp_all
    moreover from False have "butlast (tl p) @ [last (tl p)] = tl p" by simp
    then have "map label (butlast (tl p)) @ [label (last (tl p))] = map label (tl p)"
      by (metis list.simps(8,9) map_append)
    ultimately show ?thesis using ne by (simp add: printed_actions_nonempty)
  qed
next
  assume "p \<noteq> []"
  then show "printed_total (print_actions (Some p)) = Some (sum_list (map cost p))"
    by (rule printed_total_nonempty)
qed

theorem print_actions_spec_witness:
  "printed_actions (print_actions (Some [Arc None ''A'' ''no action'' 0,
       Arc (Some ''A'') ''B'' ''A->B'' 1, Arc (Some ''B'') ''C'' ''B->C'' 1]))
     = [''A->B'', ''B->C''] \<and>
   printed_total (print_actions (Some [Arc None ''A'' ''no action'' 0,
       Arc (Some ''A'') ''B'' ''A->B'' 1, Arc (Some ''B'') ''C'' ''B->C'' 1])) = Some 2 \<and>
   printed_actions (print_actions (Some [Arc None ''A'' ''no action'' 0])) = [''no action'']"
proof -
  have long: "printed_actions (print_actions (Some [Arc None ''A'' ''no action'' 0,
       Arc (Some ''A'') ''B'' ''A->B'' 1, Arc (Some ''B'') ''C'' ''B->C'' 1]))
     = [''A->B'', ''B->C''] \<and>
   printed_total (print_actions (Some [Arc None ''A'' ''no action'' 0,
       Arc (Some ''A'') ''B'' ''A->B'' 1, Arc (Some ''B'') ''C'' ''B->C'' 1])) = Some 2"
    using print_actions_spec [of "[Arc None ''A'' ''no action'' 0,
       Arc (Some ''A'') ''B'' ''A->B'' 1, Arc (Some ''B'') ''C'' ''B->C'' 1]"]
    by simp
  have short: "printed_actions (print_actions (Some [Arc None ''A'' ''no action'' 0]))
     = [''no action'']"
    using print_actions_spec [of "[Arc None ''A'' ''no action'' 0]"]
    by simp
  from long short show ?thesis by iprover
qed

text \<open>
  For the path of the seed arc alone, which \<^verbatim>\<open>generic_search\<close> returns when a starting
  node is a goal, the action listed is the seed's "no action", while the arcs after the
  seed have no label to list.
\<close>

theorem print_actions_seed_only_counterexample:
  "printed_actions (print_actions (Some [Arc None ''A'' ''no action'' 0])) = [''no action''] \<and>
   printed_actions (print_actions (Some [Arc None ''A'' ''no action'' 0]))
     \<noteq> map label (tl [Arc None ''A'' ''no action'' 0])"
  by (simp add: print_actions_def printed_actions_def)

end
